theory Spec2Isabelle
  imports Main "HOL-Library.Word" "HOL-Library.Signed_Division"
begin

section \<open>A round-robin reverse-proxy load balancer (main.go)\<close>

subsection \<open>Go's machine arithmetic and run-time panics\<close>

text \<open>
  The cursor \<open>roundRobinCount\<close> is a Go \<open>int\<close>: a signed two's-complement integer,
  64 bits wide on the usual platforms, whose \<open>++\<close> wraps around silently. Go's \<open>%\<close>
  truncates towards zero (the remainder has the sign of the dividend), which is
  \<open>smod\<close>; a zero divisor and an index outside \<open>0 \<le> i < len\<close> are run-time panics.
\<close>

type_synonym go_int = "64 word"

datatype panic = IndexOutOfRange | DivideByZero

definition go_rem :: "int \<Rightarrow> int \<Rightarrow> panic + int" where
  "go_rem a b = (if b = 0 then Inl DivideByZero else Inr (a smod b))"

definition go_index :: "'a list \<Rightarrow> int \<Rightarrow> panic + 'a" where
  "go_index xs i =
     (if 0 \<le> i \<and> i < int (length xs) then Inr (xs ! nat i) else Inl IndexOutOfRange)"

subsection \<open>Servers\<close>

text \<open>
  A value of the interface \<open>Server\<close> is represented by the answers of its two
  observers \<open>Address()\<close> and \<open>IsAlive()\<close>; nothing in the program changes them after
  construction. The third method, \<open>Serve\<close>, is the forwarding done by the standard
  library's reverse proxy and appears as a parameter of \<open>serveProxy\<close> below.
\<close>

record Server =
  Address :: string
  IsAlive :: bool

text \<open>The struct \<open>simpleServer\<close>; \<open>'u\<close> is the parsed URL its reverse proxy targets.\<close>

record 'u simpleServer =
  addr :: string
  proxy :: 'u

definition simpleServer_Address :: "'u simpleServer \<Rightarrow> string" where
  "simpleServer_Address s = addr s"

definition simpleServer_IsAlive :: "'u simpleServer \<Rightarrow> bool" where
  "simpleServer_IsAlive s = True"

text \<open>A \<open>*simpleServer\<close> stored in a variable of interface type \<open>Server\<close>.\<close>

definition as_Server :: "'u simpleServer \<Rightarrow> Server" where
  "as_Server s = \<lparr>Address = simpleServer_Address s, IsAlive = simpleServer_IsAlive s\<rparr>"

subsection \<open>The load balancer and its selection\<close>

record LoadBalancer =
  port :: string
  roundRobinCount :: go_int
  servers :: "Server list"

definition NewLoadBalancer :: "string \<Rightarrow> Server list \<Rightarrow> LoadBalancer" where
  "NewLoadBalancer p ss = \<lparr>port = p, roundRobinCount = 0, servers = ss\<rparr>"

text \<open>The expression \<open>lb.servers[lb.roundRobinCount%len(lb.servers)]\<close>.\<close>

definition server_at_cursor :: "LoadBalancer \<Rightarrow> panic + Server" where
  "server_at_cursor lb =
     (case go_rem (sint (roundRobinCount lb)) (int (length (servers lb))) of
        Inl e \<Rightarrow> Inl e
      | Inr i \<Rightarrow> go_index (servers lb) i)"

text \<open>The statement \<open>lb.roundRobinCount++\<close>.\<close>

definition bump :: "LoadBalancer \<Rightarrow> LoadBalancer" where
  "bump lb = lb\<lparr>roundRobinCount := roundRobinCount lb + 1\<rparr>"

text \<open>
  The loop \<open>for !server.IsAlive() { ... }\<close>. It may run forever, so it is a partial
  function: \<open>None\<close> is "does not return", \<open>Some (Inl e)\<close> a panic, \<open>Some (Inr (s, lb))\<close>
  the normal exit with the live candidate and the balancer as the loop left it.
\<close>

partial_function (option) skip_loop ::
  "LoadBalancer \<Rightarrow> Server \<Rightarrow> (panic + Server \<times> LoadBalancer) option" where
  "skip_loop lb server =
     (if \<not> IsAlive server then
        (case server_at_cursor (bump lb) of
           Inl e \<Rightarrow> Some (Inl e)
         | Inr server' \<Rightarrow> skip_loop (bump lb) server')
      else Some (Inr (server, lb)))"

definition getNextAvailableServer ::
  "LoadBalancer \<Rightarrow> (panic + Server \<times> LoadBalancer) option" where
  "getNextAvailableServer lb =
     (case server_at_cursor lb of
        Inl e \<Rightarrow> Some (Inl e)
      | Inr server \<Rightarrow>
          (case skip_loop lb server of
             None \<Rightarrow> None
           | Some (Inl e) \<Rightarrow> Some (Inl e)
           | Some (Inr (server', lb')) \<Rightarrow> Some (Inr (server', bump lb'))))"

text \<open>
  The same loop cut off after \<open>k\<close> executions of its body (\<open>None\<close> when the cut-off
  is reached): it counts iterations, which the partial function cannot.
\<close>

fun skip_loop_upto ::
  "nat \<Rightarrow> LoadBalancer \<Rightarrow> Server \<Rightarrow> (panic + Server \<times> LoadBalancer) option" where
  "skip_loop_upto 0 lb server =
     (if \<not> IsAlive server then None else Some (Inr (server, lb)))"
| "skip_loop_upto (Suc k) lb server =
     (if \<not> IsAlive server then
        (case server_at_cursor (bump lb) of
           Inl e \<Rightarrow> Some (Inl e)
         | Inr server' \<Rightarrow> skip_loop_upto k (bump lb) server')
      else Some (Inr (server, lb)))"

declare skip_loop.simps [code]

text \<open>\<open>m\<close> successive calls on the same balancer, collecting what they return.\<close>

fun calls :: "nat \<Rightarrow> LoadBalancer \<Rightarrow> (panic + Server list \<times> LoadBalancer) option" where
  "calls 0 lb = Some (Inr ([], lb))"
| "calls (Suc m) lb =
     (case getNextAvailableServer lb of
        None \<Rightarrow> None
      | Some (Inl e) \<Rightarrow> Some (Inl e)
      | Some (Inr (s, lb')) \<Rightarrow>
          (case calls m lb' of
             None \<Rightarrow> None
           | Some (Inl e) \<Rightarrow> Some (Inl e)
           | Some (Inr (ss, lb'')) \<Rightarrow> Some (Inr (s # ss, lb''))))"

subsection \<open>The selection algorithm as the specification words it\<close>

text \<open>
  Section 4.2 of the specification: (1) the candidate is the target at index
  \<open>cursor mod poolSize\<close>; (2) while the candidate is not alive, increment the cursor
  and recompute; (3) once a live candidate is found, increment the cursor once more
  and return it. The cursor, its increment and the remainder are those of the
  implementation language. A pool without a candidate at its cursor admits no step.
\<close>

record Pool =
  targets :: "Server list"
  cursor :: go_int

definition poolSize :: "Pool \<Rightarrow> int" where
  "poolSize p = int (length (targets p))"

definition candidate_index :: "Pool \<Rightarrow> int" where
  "candidate_index p = sint (cursor p) smod poolSize p"

definition candidate :: "Pool \<Rightarrow> Server option" where
  "candidate p =
     (if poolSize p \<noteq> 0 \<and> 0 \<le> candidate_index p \<and> candidate_index p < poolSize p
      then Some (targets p ! nat (candidate_index p)) else None)"

definition increment :: "Pool \<Rightarrow> Pool" where
  "increment p = p\<lparr>cursor := cursor p + 1\<rparr>"

inductive getNextAvailable :: "Pool \<Rightarrow> Server \<Rightarrow> Pool \<Rightarrow> bool" where
  found: "candidate p = Some t \<Longrightarrow> IsAlive t \<Longrightarrow> getNextAvailable p t (increment p)"
| skip: "candidate p = Some t \<Longrightarrow> \<not> IsAlive t \<Longrightarrow> getNextAvailable (increment p) t' p'
         \<Longrightarrow> getNextAvailable p t' p'"

code_pred getNextAvailable .

definition pool_of :: "LoadBalancer \<Rightarrow> Pool" where
  "pool_of lb = \<lparr>targets = servers lb, cursor = roundRobinCount lb\<rparr>"

subsection \<open>Dispatch\<close>

text \<open>
  \<open>serveProxy\<close> with what it does to the outside world written down as a trace. The
  forwarding \<open>targetServer.Serve(rw, req)\<close> is the reverse proxy of the standard
  library: its outcome is the parameter \<open>Serve\<close>, about which nothing is assumed.
\<close>

datatype ('req, 'resp) event =
    Selected Server
  | Printf string string
  | Served Server 'req 'resp

fun is_Selected :: "('req, 'resp) event \<Rightarrow> bool" where
  "is_Selected (Selected s) = True"
| "is_Selected e = False"

fun is_Served :: "('req, 'resp) event \<Rightarrow> bool" where
  "is_Served (Served s q r) = True"
| "is_Served e = False"

definition serveProxy ::
  "(Server \<Rightarrow> 'req \<Rightarrow> 'resp) \<Rightarrow> LoadBalancer \<Rightarrow> 'req
     \<Rightarrow> (panic + ('req, 'resp) event list \<times> LoadBalancer) option" where
  "serveProxy Serve lb req =
     (case getNextAvailableServer lb of
        None \<Rightarrow> None
      | Some (Inl e) \<Rightarrow> Some (Inl e)
      | Some (Inr (targetServer, lb')) \<Rightarrow>
          Some (Inr ([Selected targetServer,
                      Printf (''forwarding request to address %q'' @ [CHR 0x0A])
                        (Address targetServer),
                      Served targetServer req (Serve targetServer req)], lb')))"

subsection \<open>Start-up\<close>

text \<open>
  \<open>url.Parse\<close> belongs to the standard library and is a parameter: it yields a URL
  value (nil on failure) and an optional error, given here by its message.
  \<open>handleErr\<close> prints and calls \<open>os.Exit(1)\<close>; a process that has exited is \<open>Exit\<close>
  with what it printed and its status.
\<close>

datatype 'a startup = Exit string int | Ok 'a

definition handleErr :: "string option \<Rightarrow> unit startup" where
  "handleErr err =
     (case err of
        Some e \<Rightarrow> Exit (''error: '' @ e @ [CHR 0x0A]) 1
      | None \<Rightarrow> Ok ())"

definition newSimpleServer ::
  "(string \<Rightarrow> 'u \<times> string option) \<Rightarrow> string \<Rightarrow> 'u simpleServer startup" where
  "newSimpleServer parse a =
     (case parse a of
        (serverUrl, err) \<Rightarrow>
          (case handleErr err of
             Exit msg status \<Rightarrow> Exit msg status
           | Ok u \<Rightarrow> Ok \<lparr>addr = a, proxy = serverUrl\<rparr>))"

text \<open>The elements of the slice literal in \<open>main\<close>, evaluated from left to right.\<close>

fun newSimpleServers ::
  "(string \<Rightarrow> 'u \<times> string option) \<Rightarrow> string list \<Rightarrow> 'u simpleServer list startup" where
  "newSimpleServers parse [] = Ok []"
| "newSimpleServers parse (a # as) =
     (case newSimpleServer parse a of
        Exit msg status \<Rightarrow> Exit msg status
      | Ok s \<Rightarrow>
          (case newSimpleServers parse as of
             Exit msg status \<Rightarrow> Exit msg status
           | Ok ss \<Rightarrow> Ok (s # ss)))"

definition backends :: "string list" where
  "backends = [''https://www.facebook.com'', ''https://www.bing.com'',
     ''https://www.duckduckgo.com'', ''https://www.google.com'', ''https://www.yahoo.com'']"

text \<open>\<open>main\<close> up to the point where it starts to listen: the balancer it will serve with.\<close>

definition main_startup :: "(string \<Rightarrow> 'u \<times> string option) \<Rightarrow> LoadBalancer startup" where
  "main_startup parse =
     (case newSimpleServers parse backends of
        Exit msg status \<Rightarrow> Exit msg status
      | Ok ss \<Rightarrow> Ok (NewLoadBalancer ''8000'' (map as_Server ss)))"

text \<open>
  The position in the server list that a valid cursor designates (used in the proofs).
\<close>

definition slot :: "LoadBalancer \<Rightarrow> nat" where
  "slot lb = nat (sint (roundRobinCount lb) mod int (length (servers lb)))"

text \<open>
  The \<open>i\<close>-th target in list order, cyclically, counted from the position of the
  cursor; and the balancer after \<open>k\<close> increments of the cursor (both used in the
  proofs only).
\<close>

definition target_at :: "LoadBalancer \<Rightarrow> nat \<Rightarrow> Server" where
  "target_at lb i = servers lb ! ((slot lb + i) mod length (servers lb))"

definition advance :: "nat \<Rightarrow> LoadBalancer \<Rightarrow> LoadBalancer" where
  "advance k lb = lb\<lparr>roundRobinCount := roundRobinCount lb + of_nat k\<rparr>"

subsection \<open>Example servers\<close>

definition alive_server :: "string \<Rightarrow> Server" where
  "alive_server a = \<lparr>Address = a, IsAlive = True\<rparr>"

definition dead_server :: "string \<Rightarrow> Server" where
  "dead_server a = \<lparr>Address = a, IsAlive = False\<rparr>"

definition balancer_at :: "go_int \<Rightarrow> Server list \<Rightarrow> LoadBalancer" where
  "balancer_at c ss = \<lparr>port = ''8000'', roundRobinCount = c, servers = ss\<rparr>"

section \<open>Properties\<close>

subsection \<open>The loop and its bounded version\<close>

lemma upto_imp_loop: "skip_loop_upto k lb s = Some r \<Longrightarrow> skip_loop lb s = Some r"
proof (induction k arbitrary: lb s)
  case 0
  then show ?case by (subst skip_loop.simps) (simp split: if_splits)
next
  case (Suc k)
  then show ?case by (subst skip_loop.simps) (auto split: if_splits sum.splits)
qed

lemma loop_imp_upto: "skip_loop lb s = Some r \<Longrightarrow> \<exists>k. skip_loop_upto k lb s = Some r"
proof (induction rule: skip_loop.raw_induct [rotated 1, consumes 1])
  case (1 f lb s r)
  show ?case
  proof (cases "IsAlive s")
    case True
    with 1(2) have "skip_loop_upto 0 lb s = Some r" by simp
    then show ?thesis ..
  next
    case False
    show ?thesis
    proof (cases "server_at_cursor (bump lb)")
      case (Inl e)
      with False 1(2) have "skip_loop_upto (Suc 0) lb s = Some r" by simp
      then show ?thesis ..
    next
      case (Inr s')
      with False 1(2) have "f (bump lb) s' = Some r" by simp
      from 1(1)[OF this] obtain k where "skip_loop_upto k (bump lb) s' = Some r" ..
      with False Inr have "skip_loop_upto (Suc k) lb s = Some r" by simp
      then show ?thesis ..
    qed
  qed
qed

subsection \<open>The code against the specified algorithm\<close>

lemma server_at_cursor_candidate:
  "server_at_cursor lb = Inr s \<longleftrightarrow> candidate (pool_of lb) = Some s"
  by (auto simp: server_at_cursor_def candidate_def pool_of_def go_rem_def go_index_def
      candidate_index_def poolSize_def split: if_splits)

lemma pool_of_bump: "pool_of (bump lb) = increment (pool_of lb)"
  by (simp add: pool_of_def bump_def increment_def)

lemma upto_getNextAvailable:
  "skip_loop_upto k lb s = Some (Inr (t, lb0)) \<Longrightarrow> server_at_cursor lb = Inr s
   \<Longrightarrow> getNextAvailable (pool_of lb) t (pool_of (bump lb0)) \<and> port lb0 = port lb"
proof (induction k arbitrary: lb s)
  case 0
  then show ?case
    by (auto simp: server_at_cursor_candidate pool_of_bump intro: getNextAvailable.found
        split: if_splits)
next
  case (Suc k)
  show ?case
  proof (cases "IsAlive s")
    case True
    with Suc.prems show ?thesis
      by (auto simp: server_at_cursor_candidate pool_of_bump intro: getNextAvailable.found)
  next
    case False
    with Suc.prems obtain s' where s': "server_at_cursor (bump lb) = Inr s'"
      and run: "skip_loop_upto k (bump lb) s' = Some (Inr (t, lb0))"
      by (auto split: sum.splits)
    from Suc.IH [OF run s']
    have "getNextAvailable (increment (pool_of lb)) t (pool_of (bump lb0))"
      by (simp add: pool_of_bump)
    moreover from Suc.IH [OF run s'] have "port lb0 = port lb"
      by (simp add: bump_def)
    ultimately show ?thesis using False Suc.prems(2)
      by (auto simp: server_at_cursor_candidate intro: getNextAvailable.skip)
  qed
qed

lemma getNextAvailable_loop:
  "getNextAvailable p t p' \<Longrightarrow> p = pool_of lb
   \<Longrightarrow> \<exists>s lb0. server_at_cursor lb = Inr s \<and> skip_loop lb s = Some (Inr (t, lb0))
         \<and> pool_of (bump lb0) = p' \<and> port lb0 = port lb"
proof (induction arbitrary: lb rule: getNextAvailable.induct)
  case (found p t)
  then have "server_at_cursor lb = Inr t" by (simp add: server_at_cursor_candidate)
  moreover from found have "skip_loop lb t = Some (Inr (t, lb))"
    by (subst skip_loop.simps) simp
  ultimately show ?case using found by (auto simp: pool_of_bump)
next
  case (skip p t t' p')
  then have c: "server_at_cursor lb = Inr t" by (simp add: server_at_cursor_candidate)
  from skip have "increment p = pool_of (bump lb)" by (simp add: pool_of_bump)
  from skip.IH [OF this] obtain s lb0 where
    s: "server_at_cursor (bump lb) = Inr s" and
    run: "skip_loop (bump lb) s = Some (Inr (t', lb0))" and
    fin: "pool_of (bump lb0) = p'" "port lb0 = port (bump lb)"
    by blast
  from skip.hyps(2) s run have "skip_loop lb t = Some (Inr (t', lb0))"
    by (subst skip_loop.simps) simp
  with c fin show ?case by (auto simp: bump_def)
qed

lemma LoadBalancer_eqI:
  "pool_of lb = pool_of lb' \<Longrightarrow> port lb = port lb' \<Longrightarrow> lb = (lb' :: LoadBalancer)"
  by (cases lb, cases lb') (simp add: pool_of_def)

text \<open>
  C1. \<open>getNextAvailableServer\<close> is the algorithm of section 4.2: a call returns target
  \<open>t\<close> and leaves the balancer \<open>lb'\<close> exactly when the three steps of the
  specification, started on the balancer's pool, scan to \<open>t\<close> and leave the pool of
  \<open>lb'\<close>: the candidate is taken at cursor mod pool size, the cursor is incremented
  once for every candidate that is not alive, and once more for the live one that is
  returned. Nothing else of the balancer changes.
\<close>

theorem getNextAvailableServer_follows_spec:
  "getNextAvailableServer lb = Some (Inr (t, lb')) \<longleftrightarrow>
     getNextAvailable (pool_of lb) t (pool_of lb') \<and> port lb' = port lb"
proof
  assume "getNextAvailableServer lb = Some (Inr (t, lb'))"
  then obtain s lb0 where s: "server_at_cursor lb = Inr s"
    and run: "skip_loop lb s = Some (Inr (t, lb0))" and lb': "lb' = bump lb0"
    by (auto simp: getNextAvailableServer_def split: sum.splits option.splits)
  from loop_imp_upto [OF run] obtain k where "skip_loop_upto k lb s = Some (Inr (t, lb0))" ..
  from upto_getNextAvailable [OF this s] lb'
  show "getNextAvailable (pool_of lb) t (pool_of lb') \<and> port lb' = port lb"
    by (simp add: bump_def)
next
  assume a: "getNextAvailable (pool_of lb) t (pool_of lb') \<and> port lb' = port lb"
  then obtain s lb0 where s: "server_at_cursor lb = Inr s"
    and run: "skip_loop lb s = Some (Inr (t, lb0))"
    and fin: "pool_of (bump lb0) = pool_of lb'" "port lb0 = port lb"
    using getNextAvailable_loop [of "pool_of lb" t "pool_of lb'" lb] by auto
  from fin a have "bump lb0 = lb'" by (intro LoadBalancer_eqI) (simp_all add: bump_def)
  with s run show "getNextAvailableServer lb = Some (Inr (t, lb'))"
    by (simp add: getNextAvailableServer_def)
qed

theorem getNextAvailableServer_follows_spec_witness:
  "getNextAvailableServer
      (balancer_at 2 [alive_server ''a'', alive_server ''b'', dead_server ''c''])
     = Some (Inr (alive_server ''a'',
          balancer_at 4 [alive_server ''a'', alive_server ''b'', dead_server ''c'']))
   \<and> getNextAvailable
      (pool_of (balancer_at 2 [alive_server ''a'', alive_server ''b'', dead_server ''c'']))
      (alive_server ''a'')
      (pool_of (balancer_at 4 [alive_server ''a'', alive_server ''b'', dead_server ''c'']))"
proof -
  have run: "getNextAvailableServer
      (balancer_at 2 [alive_server ''a'', alive_server ''b'', dead_server ''c''])
     = Some (Inr (alive_server ''a'',
          balancer_at 4 [alive_server ''a'', alive_server ''b'', dead_server ''c'']))"
    by code_simp
  with getNextAvailableServer_follows_spec
    [of "balancer_at 2 [alive_server ''a'', alive_server ''b'', dead_server ''c'']"
        "alive_server ''a''"
        "balancer_at 4 [alive_server ''a'', alive_server ''b'', dead_server ''c'']"]
  show ?thesis by blast
qed

subsection \<open>A fresh balancer\<close>

text \<open>
  C10. \<open>NewLoadBalancer\<close> stores the port and the server list as given and starts
  the cursor at 0; on such a balancer whose list is not empty and whose first server
  reports alive, the first call of \<open>getNextAvailableServer\<close> returns the first server
  of the list (and leaves the cursor at 1).
\<close>

theorem NewLoadBalancer_first_call:
  "NewLoadBalancer p ss = \<lparr>port = p, roundRobinCount = 0, servers = ss\<rparr> \<and>
   (ss \<noteq> [] \<longrightarrow> IsAlive (hd ss) \<longrightarrow>
      getNextAvailableServer (NewLoadBalancer p ss)
        = Some (Inr (hd ss, \<lparr>port = p, roundRobinCount = 1, servers = ss\<rparr>)))"
proof -
  have "getNextAvailableServer (NewLoadBalancer p ss)
        = Some (Inr (hd ss, \<lparr>port = p, roundRobinCount = 1, servers = ss\<rparr>))"
    if "ss \<noteq> []" "IsAlive (hd ss)"
  proof -
    from that have c: "server_at_cursor (NewLoadBalancer p ss) = Inr (hd ss)"
      by (simp add: server_at_cursor_def NewLoadBalancer_def go_rem_def go_index_def
          hd_conv_nth)
    from that have
      "skip_loop (NewLoadBalancer p ss) (hd ss) = Some (Inr (hd ss, NewLoadBalancer p ss))"
      by (subst skip_loop.simps) simp
    with c show ?thesis
      by (simp add: getNextAvailableServer_def bump_def NewLoadBalancer_def)
  qed
  then show ?thesis by (simp add: NewLoadBalancer_def)
qed

theorem NewLoadBalancer_first_call_witness:
  "[alive_server ''a'', dead_server ''b''] \<noteq> []
   \<and> IsAlive (hd [alive_server ''a'', dead_server ''b''])
   \<and> getNextAvailableServer (NewLoadBalancer ''8000'' [alive_server ''a'', dead_server ''b''])
     = Some (Inr (alive_server ''a'',
          \<lparr>port = ''8000'', roundRobinCount = 1,
           servers = [alive_server ''a'', dead_server ''b'']\<rparr>))"
proof -
  let ?ss = "[alive_server ''a'', dead_server ''b'']"
  have ne: "?ss \<noteq> []" by simp
  have al: "IsAlive (hd ?ss)" by (simp add: alive_server_def)
  have "getNextAvailableServer (NewLoadBalancer ''8000'' ?ss)
     = Some (Inr (hd ?ss, \<lparr>port = ''8000'', roundRobinCount = 1, servers = ?ss\<rparr>))"
    using NewLoadBalancer_first_call [of "''8000''" ?ss] ne al by blast
  then have "getNextAvailableServer (NewLoadBalancer ''8000'' ?ss)
     = Some (Inr (alive_server ''a'',
          \<lparr>port = ''8000'', roundRobinCount = 1, servers = ?ss\<rparr>))"
    by (simp only: list.sel)
  with ne al show ?thesis by blast
qed

subsection \<open>Cursor arithmetic\<close>

lemma smod_nonneg: "0 \<le> a \<Longrightarrow> 0 < b \<Longrightarrow> (a::int) smod b = a mod b"
  by (simp add: signed_modulo_int_def sgn_if)

lemma smod_neg: "a < 0 \<Longrightarrow> 0 < b \<Longrightarrow> (a::int) smod b = - ((- a) mod b)"
  by (simp add: signed_modulo_int_def sgn_if)

lemma smod_neg_valid:
  assumes "0 < b" "a < 0" "0 \<le> (a::int) smod b" shows "b dvd a"
proof -
  have e: "a smod b = - ((- a) mod b)" using assms by (simp add: smod_neg)
  have "0 \<le> (- a) mod b" using assms(1) by (rule pos_mod_sign)
  with e assms(3) have z: "(- a) mod b = 0" by linarith
  then have "b dvd - a" by (simp only: dvd_eq_mod_eq_0)
  then show "b dvd a" by simp
qed

lemma smod_valid: 
  assumes "0 < b" "0 \<le> (a::int) smod b" shows "a smod b = a mod b"
proof (cases "0 \<le> a")
  case True then show ?thesis using assms by (simp add: smod_nonneg)
next
  case False
  with assms have d: "b dvd a" by (intro smod_neg_valid) simp_all
  then have "a mod b = 0" by (simp only: dvd_eq_mod_eq_0)
  moreover from d have "(- a) mod b = 0" by simp
  ultimately show ?thesis using False assms by (simp add: smod_neg)
qed

lemma smod_less: "0 < b \<Longrightarrow> (a::int) smod b < b"
  using smod_int_range [of b a] by auto

lemma sint_range: "- (2^63) \<le> sint (c::go_int) \<and> sint c < 2^63"
  using sint_ge[of c] sint_lt[of c] by simp

lemma sint_succ: "sint (c::go_int) < 2^63 - 1 \<Longrightarrow> sint (c + 1) = sint c + 1"
  using sint_range [of c]
  by (simp add: sint_word_add signed_take_bit_int_eq_self)

lemma sint_succ_wrap:
  assumes "sint (c::go_int) = 2^63 - 1" shows "sint (c + 1) = - (2^63)"
proof -
  have "c = word_of_int (sint c)" by simp
  with assms have "c = 0x7FFFFFFFFFFFFFFF" by simp
  then show ?thesis by simp
qed

lemma server_at_cursor_Inr_iff:
  "server_at_cursor lb = Inr s \<longleftrightarrow>
     servers lb \<noteq> [] \<and> 0 \<le> sint (roundRobinCount lb) smod int (length (servers lb))
     \<and> s = servers lb ! nat (sint (roundRobinCount lb) smod int (length (servers lb)))"
  by (auto simp: server_at_cursor_def go_rem_def go_index_def smod_less)

lemma server_at_cursor_slot:
  assumes "server_at_cursor lb = Inr s"
  shows "s = servers lb ! slot lb" and "slot lb < length (servers lb)"
    and "sint (roundRobinCount lb) smod int (length (servers lb)) = int (slot lb)"
proof -
  let ?n = "int (length (servers lb))"
  from assms have n: "0 < ?n" and v: "0 \<le> sint (roundRobinCount lb) smod ?n"
    and s: "s = servers lb ! nat (sint (roundRobinCount lb) smod ?n)"
    by (simp_all add: server_at_cursor_Inr_iff)
  from n v have e: "sint (roundRobinCount lb) smod ?n = sint (roundRobinCount lb) mod ?n"
    by (rule smod_valid)
  with s show "s = servers lb ! slot lb" by (simp add: slot_def)
  from n have "sint (roundRobinCount lb) mod ?n < ?n" by simp
  with n show "slot lb < length (servers lb)" by (simp add: slot_def nat_less_iff)
  from n e show "sint (roundRobinCount lb) smod ?n = int (slot lb)" by (simp add: slot_def)
qed

lemma server_at_cursor_in_set: "server_at_cursor lb = Inr s \<Longrightarrow> s \<in> set (servers lb)"
  using server_at_cursor_slot(1,2) [of lb s] by simp

lemma server_at_cursor_nonneg:
  assumes "servers lb \<noteq> []" "0 \<le> sint (roundRobinCount lb)"
  shows "server_at_cursor lb = Inr (servers lb ! slot lb)"
proof -
  let ?n = "int (length (servers lb))"
  from assms have n: "0 < ?n" by simp
  with assms have "sint (roundRobinCount lb) smod ?n = sint (roundRobinCount lb) mod ?n"
    by (simp add: smod_nonneg)
  with n show ?thesis by (simp add: server_at_cursor_Inr_iff assms slot_def)
qed

lemma server_at_cursor_panic:
  "servers lb \<noteq> [] \<Longrightarrow> server_at_cursor lb = Inl e \<Longrightarrow> e = IndexOutOfRange"
  by (auto simp: server_at_cursor_def go_rem_def go_index_def split: if_splits)

lemma bump_simps [simp]:
  "servers (bump lb) = servers lb" "port (bump lb) = port lb"
  "roundRobinCount (bump lb) = roundRobinCount lb + 1"
  by (simp_all add: bump_def)

lemma sint_succ_mod:
  assumes n: "0 < n" and v: "0 \<le> sint (c + 1) smod n"
  shows "sint ((c::go_int) + 1) mod n = (sint c + 1) mod n"
proof (cases "sint c < 2^63 - 1")
  case True
  then show ?thesis by (simp add: sint_succ)
next
  case False
  with sint_range [of c] have m: "sint c = 2^63 - 1" by simp
  then have w: "sint (c + 1) = - (2^63)" by (rule sint_succ_wrap)
  with n v have d': "n dvd - (2^63)" by (intro smod_neg_valid) simp_all
  then have d: "n dvd 2^63" by simp
  from d' have "(- (2^63)) mod n = 0" by (simp only: dvd_eq_mod_eq_0)
  moreover from d have "(2^63) mod n = 0" by (simp only: dvd_eq_mod_eq_0)
  ultimately show ?thesis using w m by simp
qed

lemma slot_bump:
  assumes "server_at_cursor (bump lb) = Inr s'"
  shows "slot (bump lb) = (slot lb + 1) mod length (servers lb)"
proof -
  let ?n = "int (length (servers lb))"
  let ?c = "roundRobinCount lb"
  from assms have n: "0 < ?n" and v: "0 \<le> sint (?c + 1) smod ?n"
    by (simp_all add: server_at_cursor_Inr_iff)
  then have "sint (?c + 1) mod ?n = (sint ?c + 1) mod ?n" by (rule sint_succ_mod)
  also have "\<dots> = (sint ?c mod ?n + 1) mod ?n" by (simp add: mod_add_left_eq)
  also from n have "\<dots> = int ((slot lb + 1) mod length (servers lb))"
    by (simp add: slot_def zmod_int add.commute)
  finally show ?thesis by (simp add: slot_def)
qed

subsection \<open>What the loop returns and when it stops\<close>

lemma upto_result:
  "skip_loop_upto k lb s = Some (Inr (t, lb')) \<Longrightarrow>
     IsAlive t \<and> (t = s \<or> t \<in> set (servers lb)) \<and> servers lb' = servers lb
     \<and> port lb' = port lb"
proof (induction k arbitrary: lb s)
  case 0
  then show ?case by (auto split: if_splits)
next
  case (Suc k)
  show ?case
  proof (cases "IsAlive s")
    case True
    with Suc.prems show ?thesis by simp
  next
    case False
    with Suc.prems obtain s' where s': "server_at_cursor (bump lb) = Inr s'"
      and run: "skip_loop_upto k (bump lb) s' = Some (Inr (t, lb'))"
      by (auto split: sum.splits)
    from server_at_cursor_in_set [OF s'] have "s' \<in> set (servers lb)" by simp
    with Suc.IH [OF run] show ?thesis by auto
  qed
qed

lemma upto_panic:
  "skip_loop_upto k lb s = Some (Inl e) \<Longrightarrow> servers lb \<noteq> [] \<Longrightarrow> e = IndexOutOfRange"
proof (induction k arbitrary: lb s)
  case 0
  then show ?case by (simp split: if_splits)
next
  case (Suc k)
  from Suc.prems(1) have dead: "\<not> IsAlive s" by (auto split: if_splits)
  show ?case
  proof (cases "server_at_cursor (bump lb)")
    case (Inl e')
    with dead Suc.prems(1) have "e' = e" by simp
    with Inl Suc.prems(2) show ?thesis using server_at_cursor_panic [of "bump lb" e] by simp
  next
    case (Inr s')
    with dead Suc.prems(1) have "skip_loop_upto k (bump lb) s' = Some (Inl e)" by simp
    from Suc.IH [OF this] Suc.prems(2) show ?thesis by simp
  qed
qed

lemma upto_terminates:
  "server_at_cursor lb = Inr s \<Longrightarrow> j \<le> k
   \<Longrightarrow> IsAlive (servers lb ! ((slot lb + j) mod length (servers lb)))
   \<Longrightarrow> \<exists>r. skip_loop_upto k lb s = Some r"
proof (induction k arbitrary: lb s j)
  case 0
  then have "IsAlive (servers lb ! (slot lb mod length (servers lb)))" by simp
  with server_at_cursor_slot(1,2) [OF 0(1)] have "IsAlive s" by simp
  then show ?case by simp
next
  case (Suc k)
  show ?case
  proof (cases "IsAlive s")
    case True
    then show ?thesis by simp
  next
    case False
    show ?thesis
    proof (cases "server_at_cursor (bump lb)")
      case (Inl e)
      with False show ?thesis by simp
    next
      case (Inr s')
      from False server_at_cursor_slot(1,2) [OF Suc.prems(1)] Suc.prems(3)
      have "j \<noteq> 0" by (cases "j = 0") simp_all
      then obtain j' where j: "j = Suc j'" by (cases j) simp_all
      have "(slot (bump lb) + j') mod length (servers lb)
          = ((slot lb + 1) mod length (servers lb) + j') mod length (servers lb)"
        by (simp add: slot_bump [OF Inr])
      also have "\<dots> = (slot lb + j) mod length (servers lb)"
        by (simp add: j mod_add_left_eq)
      finally have "IsAlive (servers (bump lb) !
          ((slot (bump lb) + j') mod length (servers (bump lb))))"
        using Suc.prems(3) by simp
      moreover from j Suc.prems(2) have "j' \<le> k" by simp
      ultimately obtain r where "skip_loop_upto k (bump lb) s' = Some r"
        using Suc.IH [OF Inr] by blast
      with False Inr show ?thesis by simp
    qed
  qed
qed

lemma one_pass_reaches:
  assumes "p < n" "m < (n::nat)"
  shows "\<exists>j \<le> n - 1. (p + j) mod n = m"
proof (cases "p \<le> m")
  case True
  with assms have "(p + (m - p)) mod n = m" "m - p \<le> n - 1" by simp_all
  then show ?thesis by blast
next
  case False
  with assms have "(p + (n + m - p)) mod n = m" "n + m - p \<le> n - 1" by simp_all
  then show ?thesis by blast
qed

lemma upto_one_pass:
  assumes c: "server_at_cursor lb = Inr s" and a: "t \<in> set (servers lb)" "IsAlive t"
  shows "\<exists>r. skip_loop_upto (length (servers lb) - 1) lb s = Some r"
proof -
  from a obtain m where m: "m < length (servers lb)" "servers lb ! m = t"
    by (auto simp: in_set_conv_nth)
  from server_at_cursor_slot(2) [OF c] m(1) obtain j where
    j: "j \<le> length (servers lb) - 1" "(slot lb + j) mod length (servers lb) = m"
    using one_pass_reaches by blast
  from a(2) have "IsAlive (servers lb ! ((slot lb + j) mod length (servers lb)))"
    by (simp only: j(2) m(2))
  with c j(1) show ?thesis by (rule upto_terminates)
qed

lemma upto_all_dead_before_wrap:
  "server_at_cursor lb = Inr s \<Longrightarrow> \<forall>t \<in> set (servers lb). \<not> IsAlive t
   \<Longrightarrow> 0 \<le> sint (roundRobinCount lb) \<Longrightarrow> sint (roundRobinCount lb) + int k < 2^63
   \<Longrightarrow> skip_loop_upto k lb s = None"
proof (induction k arbitrary: lb s)
  case 0
  with server_at_cursor_in_set [OF 0(1)] show ?case by simp
next
  case (Suc k)
  from server_at_cursor_in_set [OF Suc.prems(1)] Suc.prems(2) have dead: "\<not> IsAlive s" by simp
  from Suc.prems have e: "sint (roundRobinCount lb + 1) = sint (roundRobinCount lb) + 1"
    by (intro sint_succ) simp
  from Suc.prems(1) have "servers lb \<noteq> []" by (simp add: server_at_cursor_Inr_iff)
  with e Suc.prems(3)
  have c: "server_at_cursor (bump lb) = Inr (servers (bump lb) ! slot (bump lb))"
    by (intro server_at_cursor_nonneg) simp_all
  have "skip_loop_upto k (bump lb) (servers (bump lb) ! slot (bump lb)) = None"
    using Suc.prems e by (intro Suc.IH [OF c]) simp_all
  with dead c show ?case by simp
qed

lemma upto_single_dead:
  "servers lb = [x] \<Longrightarrow> \<not> IsAlive x \<Longrightarrow> skip_loop_upto k lb x = None"
proof (induction k arbitrary: lb)
  case 0
  then show ?case by simp
next
  case (Suc k)
  then have "server_at_cursor (bump lb) = Inr x"
    by (simp add: server_at_cursor_Inr_iff signed_modulo_int_def)
  moreover from Suc have "skip_loop_upto k (bump lb) x = None" by simp
  ultimately show ?case using Suc.prems by simp
qed

text \<open>
  C4 (as amended). Let the loop be entered with the initial candidate \<open>s\<close> (so
  the pool is not empty). If at least one target reports alive, the loop stops after
  at most \<open>len - 1\<close> executions of its body, that is within one full pass over the
  pool starting from the initial candidate. If every target reports not-alive, the
  loop never yields a target: it does not stop at all in a pool of one target and,
  in any pool, not before the cursor has passed the largest \<open>int\<close>.
\<close>

theorem skip_loop_termination:
  "server_at_cursor lb = Inr s \<Longrightarrow>
     ((\<exists>t \<in> set (servers lb). IsAlive t) \<longrightarrow>
        (\<exists>r. skip_loop_upto (length (servers lb) - 1) lb s = Some r \<and> skip_loop lb s = Some r))
   \<and> ((\<forall>t \<in> set (servers lb). \<not> IsAlive t) \<longrightarrow>
        (\<forall>t lb'. skip_loop lb s \<noteq> Some (Inr (t, lb')))
      \<and> (length (servers lb) = 1 \<longrightarrow> skip_loop lb s = None)
      \<and> (\<forall>k. 0 \<le> sint (roundRobinCount lb) \<longrightarrow> sint (roundRobinCount lb) + int k < 2^63
            \<longrightarrow> skip_loop_upto k lb s = None))"
proof (intro conjI impI allI)
  assume c: "server_at_cursor lb = Inr s" and "\<exists>t \<in> set (servers lb). IsAlive t"
  then obtain r where r: "skip_loop_upto (length (servers lb) - 1) lb s = Some r"
    using upto_one_pass by blast
  with upto_imp_loop [OF r]
  show "\<exists>r. skip_loop_upto (length (servers lb) - 1) lb s = Some r \<and> skip_loop lb s = Some r"
    by blast
next
  fix t lb'
  assume c: "server_at_cursor lb = Inr s" and d: "\<forall>t \<in> set (servers lb). \<not> IsAlive t"
  show "skip_loop lb s \<noteq> Some (Inr (t, lb'))"
  proof
    assume "skip_loop lb s = Some (Inr (t, lb'))"
    from loop_imp_upto [OF this] obtain k where "skip_loop_upto k lb s = Some (Inr (t, lb'))" ..
    from upto_result [OF this] d server_at_cursor_in_set [OF c] show False by auto
  qed
next
  assume c: "server_at_cursor lb = Inr s" and d: "\<forall>t \<in> set (servers lb). \<not> IsAlive t"
    and one: "length (servers lb) = 1"
  from one obtain x where x: "servers lb = [x]" by (cases "servers lb") simp_all
  with server_at_cursor_in_set [OF c] d have "s = x" "\<not> IsAlive x" by simp_all
  with x have "skip_loop_upto k lb s = None" for k by (simp add: upto_single_dead)
  with loop_imp_upto [of lb s] show "skip_loop lb s = None"
    by (cases "skip_loop lb s") auto
next
  fix k
  assume "server_at_cursor lb = Inr s" "\<forall>t \<in> set (servers lb). \<not> IsAlive t"
    "0 \<le> sint (roundRobinCount lb)" "sint (roundRobinCount lb) + int k < 2^63"
  then show "skip_loop_upto k lb s = None" by (rule upto_all_dead_before_wrap)
qed

theorem skip_loop_termination_witness:
  "server_at_cursor (balancer_at 2 [alive_server ''a'', alive_server ''b'', dead_server ''c''])
     = Inr (dead_server ''c'')
   \<and> (\<exists>t \<in> set (servers
          (balancer_at 2 [alive_server ''a'', alive_server ''b'', dead_server ''c''])). IsAlive t)
   \<and> (\<exists>r. skip_loop_upto 2
            (balancer_at 2 [alive_server ''a'', alive_server ''b'', dead_server ''c''])
            (dead_server ''c'') = Some r
        \<and> skip_loop (balancer_at 2 [alive_server ''a'', alive_server ''b'', dead_server ''c''])
            (dead_server ''c'') = Some r)
   \<and> server_at_cursor (balancer_at 7 [dead_server ''a'']) = Inr (dead_server ''a'')
   \<and> servers (balancer_at 7 [dead_server ''a'']) = [dead_server ''a'']
   \<and> \<not> IsAlive (dead_server ''a'')
   \<and> skip_loop (balancer_at 7 [dead_server ''a'']) (dead_server ''a'') = None"
proof -
  let ?lb = "balancer_at 2 [alive_server ''a'', alive_server ''b'', dead_server ''c'']"
  let ?lb1 = "balancer_at 7 [dead_server ''a'']"
  have c: "server_at_cursor ?lb = Inr (dead_server ''c'')" by code_simp
  have a: "\<exists>t \<in> set (servers ?lb). IsAlive t"
    by (simp add: balancer_at_def alive_server_def)
  have l: "length (servers ?lb) - 1 = 2" by (simp add: balancer_at_def)
  have c1: "server_at_cursor ?lb1 = Inr (dead_server ''a'')" by code_simp
  have a1: "\<forall>t \<in> set (servers ?lb1). \<not> IsAlive t"
    by (simp add: balancer_at_def dead_server_def)
  have l1: "length (servers ?lb1) = 1" by (simp add: balancer_at_def)
  from skip_loop_termination [OF c] a l
  have "\<exists>r. skip_loop_upto 2 ?lb (dead_server ''c'') = Some r
          \<and> skip_loop ?lb (dead_server ''c'') = Some r"
    by simp
  moreover from skip_loop_termination [OF c1] a1 l1
  have "skip_loop ?lb1 (dead_server ''a'') = None" by blast
  moreover have "servers ?lb1 = [dead_server ''a'']" "\<not> IsAlive (dead_server ''a'')"
    by (simp_all add: balancer_at_def dead_server_def)
  ultimately show ?thesis using c a c1 by blast
qed

text \<open>
  The claim as stated fails: with two targets, both not alive, and the cursor at the
  largest \<open>int\<close>, the loop stops with a panic.
\<close>

theorem skip_loop_all_dead_panics:
  "server_at_cursor (balancer_at 0x7FFFFFFFFFFFFFFF [dead_server ''a'', dead_server ''b''])
     = Inr (dead_server ''b'')
   \<and> \<not> IsAlive (dead_server ''a'') \<and> \<not> IsAlive (dead_server ''b'')
   \<and> skip_loop (balancer_at 0x7FFFFFFFFFFFFFFF [dead_server ''a'', dead_server ''b''])
        (dead_server ''b'') = Some (Inl IndexOutOfRange)"
  by code_simp

subsection \<open>What a call returns\<close>

lemma getNextAvailableServer_result:
  assumes "getNextAvailableServer lb = Some (Inr (t, lb'))"
  shows "IsAlive t" and "t \<in> set (servers lb)" and "servers lb' = servers lb"
    and "port lb' = port lb"
proof -
  from assms obtain s lb0 where s: "server_at_cursor lb = Inr s"
    and run: "skip_loop lb s = Some (Inr (t, lb0))" and lb': "lb' = bump lb0"
    by (auto simp: getNextAvailableServer_def split: sum.splits option.splits)
  from loop_imp_upto [OF run] obtain k where "skip_loop_upto k lb s = Some (Inr (t, lb0))" ..
  from upto_result [OF this] server_at_cursor_in_set [OF s] lb'
  show "IsAlive t" and "t \<in> set (servers lb)" and "servers lb' = servers lb"
    and "port lb' = port lb"
    by auto
qed

subsection \<open>Dispatch\<close>

text \<open>
  C7. \<open>serveProxy\<close> selects once and forwards once. When the one call of
  \<open>getNextAvailableServer\<close> does not return or panics, so does \<open>serveProxy\<close>,
  without a second attempt. When that call returns target \<open>t\<close>, \<open>serveProxy\<close>
  returns, having selected \<open>t\<close>, printed its address and forwarded the request to
  \<open>t\<close>: its trace holds exactly one selection and exactly one forwarding, both of
  \<open>t\<close>. Conversely a trace of \<open>serveProxy\<close> comes from such a call; the liveness
  answers of the servers are unchanged; and whatever the forwarding does (any other
  \<open>Serve'\<close>) the selection and the balancer left behind are the same.
\<close>

theorem serveProxy_dispatch:
  "(getNextAvailableServer lb = None \<longrightarrow> serveProxy Serve lb req = None)
   \<and> (getNextAvailableServer lb = Some (Inl e) \<longrightarrow> serveProxy Serve lb req = Some (Inl e))
   \<and> (getNextAvailableServer lb = Some (Inr (t, lb1)) \<longrightarrow>
        (\<exists>tr1. serveProxy Serve lb req = Some (Inr (tr1, lb1))
           \<and> tr1 = [Selected t,
                Printf (''forwarding request to address %q'' @ [CHR 0x0A]) (Address t),
                Served t req (Serve t req)]
           \<and> filter is_Selected tr1 = [Selected t]
           \<and> filter is_Served tr1 = [Served t req (Serve t req)]))
   \<and> (serveProxy Serve lb req = Some (Inr (tr, lb')) \<longrightarrow>
        (\<exists>t. getNextAvailableServer lb = Some (Inr (t, lb'))
           \<and> filter is_Selected tr = [Selected t]
           \<and> filter is_Served tr = [Served t req (Serve t req)])
        \<and> map IsAlive (servers lb') = map IsAlive (servers lb)
        \<and> (\<forall>Serve'. \<exists>tr'. serveProxy Serve' lb req = Some (Inr (tr', lb'))
              \<and> filter is_Selected tr' = filter is_Selected tr))"
proof (intro conjI impI)
  assume a: "serveProxy Serve lb req = Some (Inr (tr, lb'))"
  then obtain t where g: "getNextAvailableServer lb = Some (Inr (t, lb'))"
    and tr: "tr = [Selected t,
        Printf (''forwarding request to address %q'' @ [CHR 0x0A]) (Address t),
        Served t req (Serve t req)]"
    by (auto simp: serveProxy_def split: option.splits sum.splits)
  from g tr show "\<exists>t. getNextAvailableServer lb = Some (Inr (t, lb'))
           \<and> filter is_Selected tr = [Selected t]
           \<and> filter is_Served tr = [Served t req (Serve t req)]"
    by simp
  from getNextAvailableServer_result(3) [OF g]
  show "map IsAlive (servers lb') = map IsAlive (servers lb)" by simp
  show "\<forall>Serve'. \<exists>tr'. serveProxy Serve' lb req = Some (Inr (tr', lb'))
              \<and> filter is_Selected tr' = filter is_Selected tr"
    using g tr by (simp add: serveProxy_def)
qed (simp_all add: serveProxy_def)

theorem serveProxy_dispatch_witness:
  "getNextAvailableServer
      (balancer_at 2 [alive_server ''a'', alive_server ''b'', dead_server ''c''])
     = Some (Inr (alive_server ''a'',
          balancer_at 4 [alive_server ''a'', alive_server ''b'', dead_server ''c'']))
   \<and> serveProxy (\<lambda>s q. Address s @ q)
      (balancer_at 2 [alive_server ''a'', alive_server ''b'', dead_server ''c'']) ''/x''
     = Some (Inr ([Selected (alive_server ''a''),
          Printf (''forwarding request to address %q'' @ [CHR 0x0A]) ''a'',
          Served (alive_server ''a'') ''/x'' ''a/x''],
         balancer_at 4 [alive_server ''a'', alive_server ''b'', dead_server ''c'']))"
proof -
  let ?ss = "[alive_server ''a'', alive_server ''b'', dead_server ''c'']"
  have run: "getNextAvailableServer (balancer_at 2 ?ss)
     = Some (Inr (alive_server ''a'', balancer_at 4 ?ss))"
    by code_simp
  with serveProxy_dispatch [where lb = "balancer_at 2 ?ss" and Serve = "\<lambda>s q. Address s @ q"
      and req = "''/x''" and t = "alive_server ''a''" and ?lb1.0 = "balancer_at 4 ?ss"
      and tr = "[]" and lb' = "balancer_at 4 ?ss" and e = IndexOutOfRange]
  have "serveProxy (\<lambda>s q. Address s @ q) (balancer_at 2 ?ss) ''/x''
     = Some (Inr ([Selected (alive_server ''a''),
          Printf (''forwarding request to address %q'' @ [CHR 0x0A])
            (Address (alive_server ''a'')),
          Served (alive_server ''a'') ''/x'' (Address (alive_server ''a'') @ ''/x'')],
         balancer_at 4 ?ss))"
    by blast
  then have "serveProxy (\<lambda>s q. Address s @ q) (balancer_at 2 ?ss) ''/x''
     = Some (Inr ([Selected (alive_server ''a''),
          Printf (''forwarding request to address %q'' @ [CHR 0x0A]) ''a'',
          Served (alive_server ''a'') ''/x'' ''a/x''],
         balancer_at 4 ?ss))"
    by (simp add: alive_server_def)
  with run show ?thesis by blast
qed

subsection \<open>Start-up\<close>

lemma newSimpleServer_fails:
  "snd (parse a) = Some e \<Longrightarrow> newSimpleServer parse a = Exit (''error: '' @ e @ [CHR 0x0A]) 1"
  by (cases "parse a") (simp add: newSimpleServer_def handleErr_def)

lemma newSimpleServer_ok:
  "snd (parse a) = None \<Longrightarrow> newSimpleServer parse a = Ok \<lparr>addr = a, proxy = fst (parse a)\<rparr>"
  by (cases "parse a") (simp add: newSimpleServer_def handleErr_def)

lemma newSimpleServers_fails:
  "a \<in> set as \<Longrightarrow> snd (parse a) = Some e \<Longrightarrow> \<exists>msg. newSimpleServers parse as = Exit msg 1"
proof (induction as)
  case Nil
  then show ?case by simp
next
  case (Cons b bs)
  show ?case
  proof (cases "snd (parse b)")
    case (Some e')
    then show ?thesis by (simp add: newSimpleServer_fails)
  next
    case None
    with Cons.prems have "a \<in> set bs" by auto
    from Cons.IH [OF this Cons.prems(2)] None show ?thesis
      by (auto simp: newSimpleServer_ok)
  qed
qed

text \<open>
  C8. When \<open>url.Parse\<close> reports an error for an address, \<open>newSimpleServer\<close> prints
  an error line and exits with status 1; it yields no server. If the address is one
  of the back ends \<open>main\<close> constructs, \<open>main\<close> exits with status 1 before it has
  a balancer, hence before any request is served.
\<close>

theorem newSimpleServer_startup_failure:
  "snd (parse a) = Some e \<Longrightarrow>
     newSimpleServer parse a = Exit (''error: '' @ e @ [CHR 0x0A]) 1
     \<and> (\<forall>s. newSimpleServer parse a \<noteq> Ok s)
     \<and> (a \<in> set backends \<longrightarrow> (\<exists>msg. main_startup parse = Exit msg 1))"
proof -
  assume f: "snd (parse a) = Some e"
  then have "newSimpleServer parse a = Exit (''error: '' @ e @ [CHR 0x0A]) 1"
    by (rule newSimpleServer_fails)
  moreover have "\<exists>msg. main_startup parse = Exit msg 1" if "a \<in> set backends"
    using newSimpleServers_fails [of a backends parse e] that f by (auto simp: main_startup_def)
  ultimately show ?thesis by simp
qed

theorem newSimpleServer_startup_failure_witness:
  "snd ((\<lambda>a. ((), if a = ''https://www.bing.com'' then Some ''bad'' else None))
        ''https://www.bing.com'') = Some ''bad''
   \<and> newSimpleServer (\<lambda>a. ((), if a = ''https://www.bing.com'' then Some ''bad'' else None))
        ''https://www.bing.com'' = Exit (''error: bad'' @ [CHR 0x0A]) 1
   \<and> ''https://www.bing.com'' \<in> set backends
   \<and> (\<exists>msg. main_startup (\<lambda>a. ((), if a = ''https://www.bing.com'' then Some ''bad'' else None))
        = Exit msg 1)"
proof -
  let ?parse = "\<lambda>a::string. ((), if a = ''https://www.bing.com'' then Some ''bad'' else None)"
  have f: "snd (?parse ''https://www.bing.com'') = Some ''bad''" by simp
  have b: "''https://www.bing.com'' \<in> set backends" by (simp add: backends_def)
  from newSimpleServer_startup_failure [of ?parse "''https://www.bing.com''" "''bad''", OF f] b f
  show ?thesis by simp
qed

subsection \<open>Static liveness\<close>

lemma as_Server_alive: "IsAlive (as_Server s)"
  by (simp add: as_Server_def simpleServer_IsAlive_def)

text \<open>
  C9. \<open>IsAlive\<close> of a \<open>simpleServer\<close> is true whatever its fields;
  \<open>getNextAvailableServer\<close> and \<open>serveProxy\<close> leave the server list, and so every
  liveness answer, as it was; and on a balancer whose servers are all
  \<open>simpleServer\<close>s the loop returns the initial candidate after zero executions of
  its body, so that the call advances the cursor by the final increment alone.
\<close>

theorem simpleServer_static_liveness:
  "simpleServer_IsAlive s = True \<and> IsAlive (as_Server s)
   \<and> (getNextAvailableServer lb = Some (Inr (t, lb')) \<longrightarrow> servers lb' = servers lb)
   \<and> (serveProxy Serve lb req = Some (Inr (tr, lb')) \<longrightarrow> servers lb' = servers lb)
   \<and> (servers lb = map as_Server ss \<longrightarrow> server_at_cursor lb = Inr t \<longrightarrow>
        skip_loop_upto 0 lb t = Some (Inr (t, lb)) \<and> skip_loop lb t = Some (Inr (t, lb))
        \<and> getNextAvailableServer lb = Some (Inr (t, bump lb)))"
proof -
  have 1: "servers lb' = servers lb" if "getNextAvailableServer lb = Some (Inr (t, lb'))"
    using getNextAvailableServer_result(3) [OF that] .
  have 2: "servers lb' = servers lb" if "serveProxy Serve lb req = Some (Inr (tr, lb'))"
  proof -
    from that obtain t' where "getNextAvailableServer lb = Some (Inr (t', lb'))"
      by (auto simp: serveProxy_def split: option.splits sum.splits)
    then show ?thesis by (rule getNextAvailableServer_result(3))
  qed
  have 3: "skip_loop_upto 0 lb t = Some (Inr (t, lb)) \<and> skip_loop lb t = Some (Inr (t, lb))
        \<and> getNextAvailableServer lb = Some (Inr (t, bump lb))"
    if ss: "servers lb = map as_Server ss" and c: "server_at_cursor lb = Inr t"
  proof -
    from server_at_cursor_in_set [OF c] ss have "IsAlive t" by (auto simp: as_Server_alive)
    then have z: "skip_loop_upto 0 lb t = Some (Inr (t, lb))" by simp
    from upto_imp_loop [OF z] z c show ?thesis by (simp add: getNextAvailableServer_def)
  qed
  from 1 2 3 show ?thesis by (simp add: simpleServer_IsAlive_def as_Server_alive)
qed

theorem simpleServer_static_liveness_witness:
  "servers (balancer_at 3 (map as_Server [\<lparr>addr = ''x'', proxy = ()\<rparr>, \<lparr>addr = ''y'', proxy = ()\<rparr>]))
     = map as_Server [\<lparr>addr = ''x'', proxy = ()\<rparr>, \<lparr>addr = ''y'', proxy = ()\<rparr>]
   \<and> server_at_cursor
        (balancer_at 3 (map as_Server [\<lparr>addr = ''x'', proxy = ()\<rparr>, \<lparr>addr = ''y'', proxy = ()\<rparr>]))
     = Inr (as_Server \<lparr>addr = ''y'', proxy = ()\<rparr>)
   \<and> skip_loop_upto 0
        (balancer_at 3 (map as_Server [\<lparr>addr = ''x'', proxy = ()\<rparr>, \<lparr>addr = ''y'', proxy = ()\<rparr>]))
        (as_Server \<lparr>addr = ''y'', proxy = ()\<rparr>)
     = Some (Inr (as_Server \<lparr>addr = ''y'', proxy = ()\<rparr>,
         balancer_at 3 (map as_Server [\<lparr>addr = ''x'', proxy = ()\<rparr>, \<lparr>addr = ''y'', proxy = ()\<rparr>])))"
proof -
  let ?ss = "[\<lparr>addr = ''x'', proxy = ()\<rparr>, \<lparr>addr = ''y'', proxy = ()\<rparr>]"
  let ?lb = "balancer_at 3 (map as_Server ?ss)"
  have s: "servers ?lb = map as_Server ?ss" by (simp add: balancer_at_def)
  have c: "server_at_cursor ?lb = Inr (as_Server \<lparr>addr = ''y'', proxy = ()\<rparr>)" by code_simp
  from simpleServer_static_liveness [where s = "\<lparr>addr = ''x'', proxy = ()\<rparr>" and lb = ?lb and ss = ?ss
      and t = "as_Server \<lparr>addr = ''y'', proxy = ()\<rparr>" and lb' = ?lb
      and Serve = "\<lambda>s q. ()" and req = "()" and tr = "[]"] s c
  show ?thesis by blast
qed

subsection \<open>Round robin while the cursor is in range\<close>

text \<open>
  As long as the cursor is non-negative and the calls do not take it beyond the
  largest \<open>int\<close>, \<open>m\<close> calls on a pool of live servers return the servers in list
  order, cyclically, from the position of the cursor on; on a fresh balancer
  \<open>k * len\<close> calls return the list \<open>k\<close> times over.
\<close>

lemma call_all_alive:
  assumes ne: "servers lb \<noteq> []" and al: "\<forall>t \<in> set (servers lb). IsAlive t"
    and nn: "0 \<le> sint (roundRobinCount lb)"
  shows "getNextAvailableServer lb = Some (Inr (servers lb ! slot lb, bump lb))"
proof -
  from ne nn have c: "server_at_cursor lb = Inr (servers lb ! slot lb)"
    by (rule server_at_cursor_nonneg)
  from server_at_cursor_in_set [OF c] al have "IsAlive (servers lb ! slot lb)" by simp
  then have "skip_loop lb (servers lb ! slot lb) = Some (Inr (servers lb ! slot lb, lb))"
    by (subst skip_loop.simps) simp
  with c show ?thesis by (simp add: getNextAvailableServer_def)
qed

lemma slot_bump_nonneg:
  assumes "servers lb \<noteq> []" "0 \<le> sint (roundRobinCount lb)"
    "sint (roundRobinCount lb) < 2^63 - 1"
  shows "slot (bump lb) = (slot lb + 1) mod length (servers lb)"
proof -
  from assms(3) have "sint (roundRobinCount lb + 1) = sint (roundRobinCount lb) + 1"
    by (rule sint_succ)
  with assms(1,2) have "server_at_cursor (bump lb) = Inr (servers (bump lb) ! slot (bump lb))"
    by (intro server_at_cursor_nonneg) simp_all
  then show ?thesis by (rule slot_bump)
qed

lemma calls_all_alive:
  "servers lb \<noteq> [] \<Longrightarrow> \<forall>t \<in> set (servers lb). IsAlive t
   \<Longrightarrow> 0 \<le> sint (roundRobinCount lb) \<Longrightarrow> sint (roundRobinCount lb) + int m < 2^63
   \<Longrightarrow> calls m lb = Some (Inr
         (map (\<lambda>i. servers lb ! ((slot lb + i) mod length (servers lb))) [0..<m],
          lb\<lparr>roundRobinCount := roundRobinCount lb + of_nat m\<rparr>))"
proof (induction m arbitrary: lb)
  case 0
  then show ?case by simp
next
  case (Suc m)
  let ?n = "length (servers lb)"
  from Suc.prems have first: "getNextAvailableServer lb = Some (Inr (servers lb ! slot lb, bump lb))"
    by (intro call_all_alive) simp_all
  from Suc.prems have e: "sint (roundRobinCount lb + 1) = sint (roundRobinCount lb) + 1"
    by (intro sint_succ) simp
  from Suc.prems have sb: "slot (bump lb) = (slot lb + 1) mod ?n"
    by (intro slot_bump_nonneg) simp_all
  from Suc.prems e have rest: "calls m (bump lb) = Some (Inr
         (map (\<lambda>i. servers (bump lb) ! ((slot (bump lb) + i) mod length (servers (bump lb)))) [0..<m],
          (bump lb)\<lparr>roundRobinCount := roundRobinCount (bump lb) + of_nat m\<rparr>))"
    by (intro Suc.IH) simp_all
  have "map (\<lambda>i. servers lb ! ((slot lb + i) mod ?n)) [0..<Suc m]
      = servers lb ! ((slot lb + 0) mod ?n)
        # map (\<lambda>i. servers lb ! ((slot lb + Suc i) mod ?n)) [0..<m]"
    by (rule map_upt_Suc)
  moreover from Suc.prems(1) have "(slot lb + 0) mod ?n = slot lb"
    by (simp add: slot_def nat_less_iff)
  moreover have "((slot lb + 1) mod ?n + i) mod ?n = (slot lb + Suc i) mod ?n" for i
    by (simp add: mod_add_left_eq)
  ultimately have "map (\<lambda>i. servers lb ! ((slot lb + i) mod ?n)) [0..<Suc m]
      = servers lb ! slot lb
        # map (\<lambda>i. servers lb ! (((slot lb + 1) mod ?n + i) mod ?n)) [0..<m]"
    by (simp only:)
  moreover have "(bump lb)\<lparr>roundRobinCount := roundRobinCount (bump lb) + of_nat m\<rparr>
      = lb\<lparr>roundRobinCount := roundRobinCount lb + of_nat (Suc m)\<rparr>"
    by (simp add: bump_def add.assoc add.commute)
  ultimately show ?case using first rest sb by (simp del: upt_Suc of_nat_Suc)
qed

lemma cycle_map:
  "xs \<noteq> [] \<Longrightarrow> map (\<lambda>i. xs ! (i mod length xs)) [0..<k * length xs] = concat (replicate k xs)"
proof (induction k)
  case 0
  then show ?case by simp
next
  case (Suc k)
  let ?n = "length xs"
  have "[0..<Suc k * ?n] = [0..<k * ?n] @ [k * ?n..<k * ?n + ?n]"
    by (simp only: mult_Suc add.commute [of ?n] upt_add_eq_append [OF le0])
  moreover have "map (\<lambda>i. xs ! (i mod ?n)) [k * ?n..<k * ?n + ?n] = xs"
  proof (rule nth_equalityI)
    show "length (map (\<lambda>i. xs ! (i mod ?n)) [k * ?n..<k * ?n + ?n]) = length xs" by simp
  next
    fix i assume "i < length (map (\<lambda>i. xs ! (i mod ?n)) [k * ?n..<k * ?n + ?n])"
    then have "i < ?n" by simp
    then show "map (\<lambda>i. xs ! (i mod ?n)) [k * ?n..<k * ?n + ?n] ! i = xs ! i" by simp
  qed
  moreover have "replicate (Suc k) xs = replicate k xs @ [xs]"
    by (simp add: replicate_append_same)
  then have "concat (replicate (Suc k) xs) = concat (replicate k xs) @ xs"
    by (simp only: concat_append concat.simps append_Nil2)
  ultimately show ?case using Suc by simp
qed

lemma round_robin_fresh:
  assumes "ss \<noteq> []" "\<forall>t \<in> set ss. IsAlive t" "int (k * length ss) < 2^63"
  shows "calls (k * length ss) (NewLoadBalancer p ss)
       = Some (Inr (concat (replicate k ss),
           \<lparr>port = p, roundRobinCount = of_nat (k * length ss), servers = ss\<rparr>))"
proof -
  let ?lb = "NewLoadBalancer p ss"
  have s0: "slot ?lb = 0" by (simp add: slot_def NewLoadBalancer_def)
  from assms have "calls (k * length ss) ?lb = Some (Inr
         (map (\<lambda>i. servers ?lb ! ((slot ?lb + i) mod length (servers ?lb))) [0..<k * length ss],
          ?lb\<lparr>roundRobinCount := roundRobinCount ?lb + of_nat (k * length ss)\<rparr>))"
    by (intro calls_all_alive) (simp_all add: NewLoadBalancer_def)
  with cycle_map [OF assms(1), of k] s0 show ?thesis
    by (simp add: NewLoadBalancer_def)
qed

text \<open>
  The same for a pool with targets that are not alive: a call returns the first live
  target at or after the cursor and leaves the cursor just behind it; as many calls
  as there are live targets return every live target exactly once, in list order
  rotated to the position of the cursor. With one target of \<open>N\<close> not alive, these
  are \<open>N - 1\<close> calls.
\<close>

lemma advance_simps [simp]:
  "servers (advance k lb) = servers lb" "port (advance k lb) = port lb"
  "roundRobinCount (advance k lb) = roundRobinCount lb + of_nat k"
  by (simp_all add: advance_def)

lemma advance_0 [simp]: "advance 0 lb = lb"
  by (simp add: advance_def)

lemma advance_bump: "advance k (bump lb) = advance (Suc k) lb"
  by (simp add: advance_def bump_def add.assoc add.commute)

lemma bump_advance: "bump (advance k lb) = advance (Suc k) lb"
  by (simp add: advance_def bump_def add.assoc)

lemma advance_advance: "advance j (advance k lb) = advance (k + j) lb"
  by (simp add: advance_def add.assoc)

lemma target_at_bump:
  assumes "servers lb \<noteq> []" "0 \<le> sint (roundRobinCount lb)"
    "sint (roundRobinCount lb) < 2^63 - 1"
  shows "target_at (bump lb) i = target_at lb (Suc i)"
  using slot_bump_nonneg [OF assms] by (simp add: target_at_def mod_add_left_eq)

lemma server_at_cursor_target:
  assumes "servers lb \<noteq> []" "0 \<le> sint (roundRobinCount lb)"
  shows "server_at_cursor lb = Inr (target_at lb 0)"
proof -
  from assms(1) have "slot lb mod length (servers lb) = slot lb"
    by (simp add: slot_def nat_less_iff)
  with server_at_cursor_nonneg [OF assms] show ?thesis by (simp add: target_at_def)
qed

lemma skip_loop_first_alive:
  "servers lb \<noteq> [] \<Longrightarrow> 0 \<le> sint (roundRobinCount lb)
   \<Longrightarrow> sint (roundRobinCount lb) + int j < 2^63
   \<Longrightarrow> \<forall>i<j. \<not> IsAlive (target_at lb i) \<Longrightarrow> IsAlive (target_at lb j)
   \<Longrightarrow> skip_loop lb (target_at lb 0) = Some (Inr (target_at lb j, advance j lb))"
proof (induction j arbitrary: lb)
  case 0
  then show ?case by (subst skip_loop.simps) simp
next
  case (Suc j)
  from Suc.prems have dead: "\<not> IsAlive (target_at lb 0)" by simp
  from Suc.prems have r: "sint (roundRobinCount lb) < 2^63 - 1" by simp
  then have e: "sint (roundRobinCount lb + 1) = sint (roundRobinCount lb) + 1"
    by (rule sint_succ)
  note tb = target_at_bump [OF Suc.prems(1,2) r]
  from Suc.prems e have c: "server_at_cursor (bump lb) = Inr (target_at (bump lb) 0)"
    by (intro server_at_cursor_target) simp_all
  from Suc.prems e
  have "skip_loop (bump lb) (target_at (bump lb) 0)
      = Some (Inr (target_at (bump lb) j, advance j (bump lb)))"
    by (intro Suc.IH) (simp_all add: tb)
  with dead c show ?case
    by (subst skip_loop.simps) (simp add: tb advance_bump)
qed

lemma call_first_alive:
  assumes "servers lb \<noteq> []" "0 \<le> sint (roundRobinCount lb)"
    "sint (roundRobinCount lb) + int j < 2^63"
    "\<forall>i<j. \<not> IsAlive (target_at lb i)" "IsAlive (target_at lb j)"
  shows "getNextAvailableServer lb = Some (Inr (target_at lb j, advance (Suc j) lb))"
  using skip_loop_first_alive [OF assms] server_at_cursor_target [OF assms(1,2)]
  by (simp add: getNextAvailableServer_def bump_advance)

lemma sint_advance:
  "0 \<le> sint (c::go_int) \<Longrightarrow> sint c + int k < 2^63 \<Longrightarrow> sint (c + of_nat k) = sint c + int k"
proof (induction k)
  case 0
  then show ?case by simp
next
  case (Suc k)
  then have ih: "sint (c + of_nat k) = sint c + int k" by simp
  with Suc.prems have "sint (c + of_nat k + 1) = sint (c + of_nat k) + 1"
    by (intro sint_succ) simp
  moreover have "c + of_nat (Suc k) = c + of_nat k + 1" by simp
  ultimately have "sint (c + of_nat (Suc k)) = sint (c + of_nat k) + 1" by (simp only:)
  with ih show ?case by simp
qed

lemma slot_advance:
  assumes "servers lb \<noteq> []" "0 \<le> sint (roundRobinCount lb)"
    "sint (roundRobinCount lb) + int k < 2^63"
  shows "slot (advance k lb) = (slot lb + k) mod length (servers lb)"
proof -
  let ?n = "int (length (servers lb))"
  have "int (slot (advance k lb)) = (sint (roundRobinCount lb) + int k) mod ?n"
    using assms by (simp add: slot_def sint_advance)
  also have "\<dots> = (sint (roundRobinCount lb) mod ?n + int k) mod ?n"
    by (simp add: mod_add_left_eq)
  also have "\<dots> = int ((slot lb + k) mod length (servers lb))"
    using assms(1) by (simp add: slot_def zmod_int)
  finally show ?thesis by simp
qed

lemma target_at_advance:
  assumes "servers lb \<noteq> []" "0 \<le> sint (roundRobinCount lb)"
    "sint (roundRobinCount lb) + int k < 2^63"
  shows "target_at (advance k lb) i = target_at lb (k + i)"
  using slot_advance [OF assms] by (simp add: target_at_def mod_add_left_eq add.assoc)

lemma filter_first:
  "filter P xs \<noteq> [] \<Longrightarrow>
     \<exists>j < length xs. P (xs ! j) \<and> (\<forall>i<j. \<not> P (xs ! i))
       \<and> filter P xs = xs ! j # filter P (drop (Suc j) xs)"
proof (induction xs)
  case Nil
  then show ?case by simp
next
  case (Cons x xs)
  show ?case
  proof (cases "P x")
    case True
    then have "0 < length (x # xs) \<and> P ((x # xs) ! 0) \<and> (\<forall>i<0. \<not> P ((x # xs) ! i))
       \<and> filter P (x # xs) = (x # xs) ! 0 # filter P (drop (Suc 0) (x # xs))"
      by simp
    then show ?thesis by blast
  next
    case False
    with Cons.prems have "filter P xs \<noteq> []" by simp
    from Cons.IH [OF this] obtain j where j: "j < length xs" "P (xs ! j)"
      "\<forall>i<j. \<not> P (xs ! i)" "filter P xs = xs ! j # filter P (drop (Suc j) xs)"
      by blast
    have "\<forall>i<Suc j. \<not> P ((x # xs) ! i)"
    proof (intro allI impI)
      fix i assume "i < Suc j"
      with False j(3) show "\<not> P ((x # xs) ! i)" by (cases i) simp_all
    qed
    with j False have "Suc j < length (x # xs) \<and> P ((x # xs) ! Suc j)
       \<and> (\<forall>i<Suc j. \<not> P ((x # xs) ! i))
       \<and> filter P (x # xs) = (x # xs) ! Suc j # filter P (drop (Suc (Suc j)) (x # xs))"
      by simp
    then show ?thesis by blast
  qed
qed

lemma calls_window:
  "servers lb \<noteq> [] \<Longrightarrow> 0 \<le> sint (roundRobinCount lb)
   \<Longrightarrow> sint (roundRobinCount lb) + int L < 2^63
   \<Longrightarrow> m \<le> length (filter IsAlive (map (target_at lb) [0..<L]))
   \<Longrightarrow> \<exists>lb'. calls m lb
         = Some (Inr (take m (filter IsAlive (map (target_at lb) [0..<L])), lb'))"
proof (induction m arbitrary: lb L)
  case 0
  then show ?case by simp
next
  case (Suc m)
  let ?w = "map (target_at lb) [0..<L]"
  have "filter IsAlive ?w \<noteq> []"
  proof
    assume "filter IsAlive ?w = []"
    then have "length (filter IsAlive ?w) = 0" by (simp only: list.size)
    with Suc.prems(4) show False by linarith
  qed
  from filter_first [OF this] obtain j where j: "j < L" "IsAlive (?w ! j)"
    "\<forall>i<j. \<not> IsAlive (?w ! i)"
    and f: "filter IsAlive ?w = ?w ! j # filter IsAlive (drop (Suc j) ?w)"
    by auto
  from j have a: "IsAlive (target_at lb j)" and d: "\<forall>i<j. \<not> IsAlive (target_at lb i)"
    by simp_all
  from Suc.prems j(1) have r: "sint (roundRobinCount lb) + int (Suc j) < 2^63" by simp
  with Suc.prems a d
  have first: "getNextAvailableServer lb = Some (Inr (target_at lb j, advance (Suc j) lb))"
    by (intro call_first_alive) simp_all
  let ?lb1 = "advance (Suc j) lb"
  let ?L1 = "L - Suc j"
  have w1: "map (target_at ?lb1) [0..<?L1] = drop (Suc j) ?w"
  proof (rule nth_equalityI)
    show "length (map (target_at ?lb1) [0..<?L1]) = length (drop (Suc j) ?w)" by simp
  next
    fix i assume "i < length (map (target_at ?lb1) [0..<?L1])"
    then have i: "i < L - Suc j" by simp
    with target_at_advance [OF Suc.prems(1,2) r, of i]
    show "map (target_at ?lb1) [0..<?L1] ! i = drop (Suc j) ?w ! i" by simp
  qed
  from Suc.prems(1,2) r have nn: "0 \<le> sint (roundRobinCount ?lb1)"
    by (simp add: sint_advance del: of_nat_Suc)
  from Suc.prems(1,2,3) r j(1) have rr: "sint (roundRobinCount ?lb1) + int ?L1 < 2^63"
    by (simp add: sint_advance del: of_nat_Suc)
  from Suc.prems(4) f w1 have "m \<le> length (filter IsAlive (map (target_at ?lb1) [0..<?L1]))"
    by simp
  with Suc.prems(1) nn rr obtain lb' where
    "calls m ?lb1 = Some (Inr (take m (filter IsAlive (map (target_at ?lb1) [0..<?L1])), lb'))"
    using Suc.IH [of ?lb1 ?L1] by auto
  with first f w1 j(1) show ?case by simp
qed

lemma one_pass_rotate:
  assumes "servers lb \<noteq> []"
  shows "map (target_at lb) [0..<length (servers lb)] = rotate (slot lb) (servers lb)"
proof (rule nth_equalityI)
  show "length (map (target_at lb) [0..<length (servers lb)])
      = length (rotate (slot lb) (servers lb))" by simp
next
  fix i assume "i < length (map (target_at lb) [0..<length (servers lb)])"
  then have "i < length (servers lb)" by simp
  then show "map (target_at lb) [0..<length (servers lb)] ! i = rotate (slot lb) (servers lb) ! i"
    by (simp add: target_at_def nth_rotate)
qed

lemma length_filter_rotate: "length (filter P (rotate k xs)) = length (filter P xs)"
proof -
  let ?j = "k mod length xs"
  have "length (filter P (rotate k xs))
      = length (filter P (drop ?j xs)) + length (filter P (take ?j xs))"
    by (simp add: rotate_drop_take)
  also have "\<dots> = length (filter P (take ?j xs @ drop ?j xs))"
    by (simp only: filter_append length_append add.commute)
  finally show ?thesis by simp
qed

lemma live_targets_once_each:
  assumes "servers lb \<noteq> []" "0 \<le> sint (roundRobinCount lb)"
    "sint (roundRobinCount lb) + int (length (servers lb)) < 2^63"
  shows "\<exists>lb'. calls (length (filter IsAlive (servers lb))) lb
       = Some (Inr (filter IsAlive (rotate (slot lb) (servers lb)), lb'))"
proof -
  let ?m = "length (filter IsAlive (servers lb))"
  let ?w = "map (target_at lb) [0..<length (servers lb)]"
  have w: "?w = rotate (slot lb) (servers lb)" using assms(1) by (rule one_pass_rotate)
  have "length (filter IsAlive (rotate (slot lb) (servers lb))) = ?m"
    by (rule length_filter_rotate)
  with w have m: "?m = length (filter IsAlive ?w)" by simp
  then have "?m \<le> length (filter IsAlive ?w)" by simp
  from calls_window [OF assms this] obtain lb' where
    "calls ?m lb = Some (Inr (take ?m (filter IsAlive ?w), lb'))" ..
  with m w show ?thesis by simp
qed

text \<open>The scenario of the specification: [a, b, c] with c not alive, four requests.\<close>

lemma end_to_end_scenario:
  "calls 4 (NewLoadBalancer ''8000'' [alive_server ''a'', alive_server ''b'', dead_server ''c''])
     = Some (Inr ([alive_server ''a'', alive_server ''b'', alive_server ''a'', alive_server ''b''],
         balancer_at 5 [alive_server ''a'', alive_server ''b'', dead_server ''c'']))"
  by code_simp

subsection \<open>Progress of the cursor\<close>

lemma dvd_succ_one:
  assumes "(n::int) dvd a" "n dvd a + 1" "0 < n" shows "n = 1"
proof -
  from assms(1,2) have "n dvd (a + 1) - a" by (rule dvd_diff [rotated])
  then have "n dvd 1" by simp
  with assms(3) show ?thesis by simp
qed

lemma target_at_valid:
  assumes "server_at_cursor lb = Inr s"
  shows "s = target_at lb 0"
  using server_at_cursor_slot(1,2) [OF assms] by (simp add: target_at_def)

lemma target_at_bump_valid:
  assumes "server_at_cursor (bump lb) = Inr s'"
  shows "target_at (bump lb) i = target_at lb (Suc i)"
  using slot_bump [OF assms] by (simp add: target_at_def mod_add_left_eq)

lemma negative_start_run:
  assumes neg: "sint (roundRobinCount lb) < 0" and c: "server_at_cursor lb = Inr s"
    and run: "skip_loop_upto j lb s = Some (Inr (t, lb0))"
  shows "lb0 = lb \<and> t = s"
proof (cases "IsAlive s")
  case True
  with run show ?thesis by (cases j) simp_all
next
  case False
  let ?n = "int (length (servers lb))"
  let ?c = "roundRobinCount lb"
  from False run obtain j' s' where "j = Suc j'"
    and s': "server_at_cursor (bump lb) = Inr s'"
    by (cases j) (auto split: sum.splits)
  from c have n: "0 < ?n" and v: "0 \<le> sint ?c smod ?n"
    by (simp_all add: server_at_cursor_Inr_iff)
  from s' have v': "0 \<le> sint (?c + 1) smod ?n" by (simp add: server_at_cursor_Inr_iff)
  from neg have e: "sint (?c + 1) = sint ?c + 1" by (intro sint_succ) simp
  from n neg v have d: "?n dvd sint ?c" by (rule smod_neg_valid)
  have d': "?n dvd sint ?c + 1"
  proof (cases "sint ?c + 1 < 0")
    case True
    with n v' e show ?thesis by (intro smod_neg_valid) simp_all
  next
    case False
    with neg have "sint ?c + 1 = 0" by simp
    then show ?thesis by simp
  qed
  from d d' n have "?n = 1" by (rule dvd_succ_one)
  then obtain x where x: "servers lb = [x]" by (cases "servers lb") simp_all
  with server_at_cursor_in_set [OF c] have "s = x" by simp
  with upto_result [OF run] x False show ?thesis by auto
qed

lemma nonneg_start_run:
  "skip_loop_upto j lb s = Some (Inr (t, lb0)) \<Longrightarrow> server_at_cursor lb = Inr s
   \<Longrightarrow> 0 \<le> sint (roundRobinCount lb)
   \<Longrightarrow> \<exists>k. lb0 = advance k lb \<and> t = target_at lb k
         \<and> (\<forall>i<k. \<not> IsAlive (target_at lb i))
         \<and> (sint (roundRobinCount lb0) = sint (roundRobinCount lb) + int k
            \<or> (sint (roundRobinCount lb) + int k = 2^63
                \<and> sint (roundRobinCount lb0) = - (2^63)))"
proof (induction j arbitrary: lb s)
  case 0
  then have "lb0 = advance 0 lb \<and> t = target_at lb 0
         \<and> (\<forall>i<0. \<not> IsAlive (target_at lb i))
         \<and> sint (roundRobinCount lb0) = sint (roundRobinCount lb) + int 0"
    using target_at_valid [OF 0(2)] by (auto split: if_splits)
  then show ?case by blast
next
  case (Suc j)
  show ?case
  proof (cases "IsAlive s")
    case True
    with Suc.prems have "lb0 = advance 0 lb \<and> t = target_at lb 0
         \<and> (\<forall>i<0. \<not> IsAlive (target_at lb i))
         \<and> sint (roundRobinCount lb0) = sint (roundRobinCount lb) + int 0"
      using target_at_valid [OF Suc.prems(2)] by auto
    then show ?thesis by blast
  next
    case False
    with Suc.prems obtain s' where s': "server_at_cursor (bump lb) = Inr s'"
      and run: "skip_loop_upto j (bump lb) s' = Some (Inr (t, lb0))"
      by (auto split: sum.splits)
    note tb = target_at_bump_valid [OF s']
    from False target_at_valid [OF Suc.prems(2)] have d0: "\<not> IsAlive (target_at lb 0)" by simp
    show ?thesis
    proof (cases "sint (roundRobinCount lb) < 2^63 - 1")
      case True
      then have e: "sint (roundRobinCount lb + 1) = sint (roundRobinCount lb) + 1"
        by (rule sint_succ)
      with Suc.prems(3) have "0 \<le> sint (roundRobinCount (bump lb))" by simp
      from Suc.IH [OF run s' this] obtain k where k: "lb0 = advance k (bump lb)"
        "t = target_at (bump lb) k" "\<forall>i<k. \<not> IsAlive (target_at (bump lb) i)"
        "sint (roundRobinCount lb0) = sint (roundRobinCount (bump lb)) + int k
            \<or> (sint (roundRobinCount (bump lb)) + int k = 2^63
                \<and> sint (roundRobinCount lb0) = - (2^63))"
        by blast
      have "\<forall>i<Suc k. \<not> IsAlive (target_at lb i)"
      proof (intro allI impI)
        fix i assume "i < Suc k"
        with d0 k(3) show "\<not> IsAlive (target_at lb i)" by (cases i) (simp_all add: tb)
      qed
      with k e have "lb0 = advance (Suc k) lb \<and> t = target_at lb (Suc k)
         \<and> (\<forall>i<Suc k. \<not> IsAlive (target_at lb i))
         \<and> (sint (roundRobinCount lb0) = sint (roundRobinCount lb) + int (Suc k)
            \<or> (sint (roundRobinCount lb) + int (Suc k) = 2^63
                \<and> sint (roundRobinCount lb0) = - (2^63)))"
        by (auto simp: tb advance_bump)
      then show ?thesis by blast
    next
      case False
      with sint_range [of "roundRobinCount lb"] have m: "sint (roundRobinCount lb) = 2^63 - 1"
        by simp
      then have w: "sint (roundRobinCount lb + 1) = - (2^63)" by (rule sint_succ_wrap)
      then have "sint (roundRobinCount (bump lb)) < 0" by simp
      from negative_start_run [OF this s' run] have r: "lb0 = bump lb" "t = s'" by simp_all
      have "\<forall>i<Suc 0. \<not> IsAlive (target_at lb i)" using d0 by simp
      with r w m target_at_valid [OF s']
      have "lb0 = advance (Suc 0) lb \<and> t = target_at lb (Suc 0)
         \<and> (\<forall>i<Suc 0. \<not> IsAlive (target_at lb i))
         \<and> (sint (roundRobinCount lb0) = sint (roundRobinCount lb) + int (Suc 0)
            \<or> (sint (roundRobinCount lb) + int (Suc 0) = 2^63
                \<and> sint (roundRobinCount lb0) = - (2^63)))"
        using advance_bump [of 0 lb] by (simp add: tb)
      then show ?thesis by blast
    qed
  qed
qed

lemma first_alive_within_pass:
  assumes n: "servers lb \<noteq> []" and a: "IsAlive (target_at lb k)"
    and d: "\<forall>i<k. \<not> IsAlive (target_at lb i)"
  shows "k < length (servers lb)"
proof (rule ccontr)
  assume "\<not> k < length (servers lb)"
  with n have "k mod length (servers lb) < k"
    by (metis length_greater_0_conv mod_less_divisor not_less order_less_le_trans)
  moreover have "target_at lb (k mod length (servers lb)) = target_at lb k"
    by (simp add: target_at_def mod_add_right_eq)
  ultimately show False using a d by metis
qed

text \<open>
  C5 (as amended). A call of \<open>getNextAvailableServer\<close> that returns has skipped
  \<open>k < len\<close> candidates that are not alive and returns the next one in list order;
  it adds exactly \<open>k + 1\<close> to the cursor. The cursor therefore strictly increases,
  by \<open>k + 1\<close>, unless \<open>cursor + k + 1\<close> exceeds the largest \<open>int\<close>: then, and only
  then, the increment overflows and the cursor, which was non-negative, wraps to the
  negative value \<open>cursor + k + 1 - 2^64\<close>. So across calls the cursor is strictly
  increasing, and repeats no value, for as long as it has not wrapped.
\<close>

theorem cursor_progress:
  assumes "getNextAvailableServer lb = Some (Inr (t, lb'))"
  shows "\<exists>k < length (servers lb).
      (\<forall>i<k. \<not> IsAlive (target_at lb i)) \<and> t = target_at lb k
    \<and> roundRobinCount lb' = roundRobinCount lb + of_nat (Suc k)
    \<and> ((sint (roundRobinCount lb) + int (Suc k) < 2^63
          \<and> sint (roundRobinCount lb') = sint (roundRobinCount lb) + int (Suc k))
       \<or> (2^63 \<le> sint (roundRobinCount lb) + int (Suc k)
          \<and> 0 \<le> sint (roundRobinCount lb) \<and> sint (roundRobinCount lb') < 0
          \<and> sint (roundRobinCount lb') = sint (roundRobinCount lb) + int (Suc k) - 2^64))"
proof -
  from assms obtain s lb0 where s: "server_at_cursor lb = Inr s"
    and run: "skip_loop lb s = Some (Inr (t, lb0))" and lb': "lb' = bump lb0"
    by (auto simp: getNextAvailableServer_def split: sum.splits option.splits)
  from loop_imp_upto [OF run] obtain j where j: "skip_loop_upto j lb s = Some (Inr (t, lb0))" ..
  from upto_result [OF j] have alive: "IsAlive t" by simp
  from s have ne: "servers lb \<noteq> []" by (simp add: server_at_cursor_Inr_iff)
  let ?c = "roundRobinCount lb" and ?d = "roundRobinCount lb0"
  have step: "(sint ?d < 2^63 - 1 \<and> sint (?d + 1) = sint ?d + 1)
      \<or> (sint ?d = 2^63 - 1 \<and> sint (?d + 1) = - (2^63))"
    using sint_succ [of ?d] sint_succ_wrap [of ?d] sint_range [of ?d] by fastforce
  have "\<exists>k. lb0 = advance k lb \<and> t = target_at lb k
         \<and> (\<forall>i<k. \<not> IsAlive (target_at lb i))
         \<and> ((sint ?c + int k < 2^63 \<and> sint ?d = sint ?c + int k
                \<and> (sint ?c < 0 \<longrightarrow> k = 0))
            \<or> (0 \<le> sint ?c \<and> sint ?c + int k = 2^63 \<and> sint ?d = - (2^63)))"
  proof (cases "sint ?c < 0")
    case True
    from negative_start_run [OF True s j] have "lb0 = lb" "t = s" by simp_all
    with True target_at_valid [OF s]
    have "lb0 = advance 0 lb \<and> t = target_at lb 0
         \<and> (\<forall>i<0. \<not> IsAlive (target_at lb i))
         \<and> (sint ?c + int 0 < 2^63 \<and> sint ?d = sint ?c + int 0
              \<and> (sint ?c < 0 \<longrightarrow> (0::nat) = 0))"
      by simp
    then show ?thesis by blast
  next
    case False
    then have nn: "0 \<le> sint ?c" by simp
    from nonneg_start_run [OF j s nn] obtain k where "lb0 = advance k lb" "t = target_at lb k"
      "\<forall>i<k. \<not> IsAlive (target_at lb i)"
      "sint ?d = sint ?c + int k \<or> (sint ?c + int k = 2^63 \<and> sint ?d = - (2^63))"
      by blast
    with nn sint_range [of ?d] show ?thesis by (intro exI [of _ k]) auto
  qed
  then obtain k where k: "lb0 = advance k lb" "t = target_at lb k"
    "\<forall>i<k. \<not> IsAlive (target_at lb i)"
    and ar: "(sint ?c + int k < 2^63 \<and> sint ?d = sint ?c + int k
                \<and> (sint ?c < 0 \<longrightarrow> k = 0))
            \<or> (0 \<le> sint ?c \<and> sint ?c + int k = 2^63 \<and> sint ?d = - (2^63))"
    by blast
  from ne alive k(2,3) have kn: "k < length (servers lb)"
    by (intro first_alive_within_pass) simp_all
  from lb' k(1) have c': "roundRobinCount lb' = ?c + of_nat (Suc k)"
    by (simp add: advance_def add.assoc add.commute)
  from lb' have d1: "roundRobinCount lb' = ?d + 1" by simp
  from ar step sint_range [of ?c]
  have "(sint ?c + int (Suc k) < 2^63 \<and> sint (?d + 1) = sint ?c + int (Suc k))
       \<or> (2^63 \<le> sint ?c + int (Suc k) \<and> 0 \<le> sint ?c \<and> sint (?d + 1) < 0
          \<and> sint (?d + 1) = sint ?c + int (Suc k) - 2^64)"
    by auto
  with kn k(2,3) c' d1 show ?thesis by (intro exI [of _ k]) (simp del: of_nat_Suc)
qed

theorem cursor_progress_witness:
  "getNextAvailableServer
      (balancer_at 2 [alive_server ''a'', alive_server ''b'', dead_server ''c''])
     = Some (Inr (alive_server ''a'',
          balancer_at 4 [alive_server ''a'', alive_server ''b'', dead_server ''c'']))
   \<and> sint (roundRobinCount
          (balancer_at 2 [alive_server ''a'', alive_server ''b'', dead_server ''c'']))
     < sint (roundRobinCount
          (balancer_at 4 [alive_server ''a'', alive_server ''b'', dead_server ''c'']))"
proof -
  let ?ss = "[alive_server ''a'', alive_server ''b'', dead_server ''c'']"
  let ?c = "roundRobinCount (balancer_at 2 ?ss)" and ?d = "roundRobinCount (balancer_at 4 ?ss)"
  have run: "getNextAvailableServer (balancer_at 2 ?ss)
     = Some (Inr (alive_server ''a'', balancer_at 4 ?ss))"
    by code_simp
  from cursor_progress [OF run] obtain k where
    "(sint ?c + int (Suc k) < 2^63 \<and> sint ?d = sint ?c + int (Suc k))
       \<or> (2^63 \<le> sint ?c + int (Suc k) \<and> 0 \<le> sint ?c \<and> sint ?d < 0
          \<and> sint ?d = sint ?c + int (Suc k) - 2^64)"
    by blast
  moreover have "\<not> sint ?d < 0" by (simp add: balancer_at_def)
  ultimately have "sint ?c < sint ?d" by auto
  with run show ?thesis by blast
qed

text \<open>
  The claim as stated fails: at the largest \<open>int\<close> a call returns and leaves the
  cursor at the smallest one.
\<close>

theorem cursor_wraps_at_max:
  "getNextAvailableServer (balancer_at 0x7FFFFFFFFFFFFFFF [alive_server ''a''])
     = Some (Inr (alive_server ''a'', balancer_at 0x8000000000000000 [alive_server ''a'']))
   \<and> sint (roundRobinCount (balancer_at 0x8000000000000000 [alive_server ''a'']))
     < sint (roundRobinCount (balancer_at 0x7FFFFFFFFFFFFFFF [alive_server ''a'']))"
  by code_simp

subsection \<open>The cursor beyond the largest int\<close>

text \<open>
  C2. Round-robin fairness: on a pool of \<open>N\<close> live targets, \<open>M\<close> successive calls
  (\<open>M\<close> a multiple of \<open>N\<close>) return every target \<open>M/N\<close> times, in list order. The
  code breaks this once the cursor reaches the largest \<open>int\<close>: three calls on three
  live targets, started there, end in an index-out-of-range panic instead of
  returning each target once.
\<close>

theorem round_robin_breaks_at_overflow:
  "calls 3 (balancer_at 0x7FFFFFFFFFFFFFFF
       [alive_server ''a'', alive_server ''b'', alive_server ''c''])
     = Some (Inl IndexOutOfRange)"
  by code_simp

text \<open>
  C3. Dead-target skip: with exactly one of \<open>N\<close> targets not alive, no call returns
  it and any \<open>N - 1\<close> consecutive calls return each live target once. The code
  breaks the second part once the cursor reaches the largest \<open>int\<close>: two calls on
  the pool [a, b, c] with c not alive, started there, end in an index-out-of-range
  panic.
\<close>

theorem dead_skip_breaks_at_overflow:
  "calls 2 (balancer_at 0x7FFFFFFFFFFFFFFF
       [alive_server ''a'', alive_server ''b'', dead_server ''c''])
     = Some (Inl IndexOutOfRange)"
  by code_simp

text \<open>
  C6. Index validity: with a non-empty server list, \<open>cursor % len\<close> is a valid
  index and no lookup of \<open>getNextAvailableServer\<close> can fail. The code breaks this
  once the cursor has wrapped: on the five back ends of \<open>main\<close>, a call at the
  largest \<open>int\<close> returns and leaves the cursor at the smallest one, where
  \<open>cursor % len\<close> is \<open>-3\<close> and the next call panics at its first lookup.
\<close>

theorem index_out_of_range_after_overflow:
  "getNextAvailableServer (balancer_at 0x7FFFFFFFFFFFFFFF (map alive_server backends))
     = Some (Inr (alive_server ''https://www.duckduckgo.com'',
          balancer_at 0x8000000000000000 (map alive_server backends)))
   \<and> getNextAvailableServer (balancer_at 0x8000000000000000 (map alive_server backends))
     = Some (Inl IndexOutOfRange)"
  by code_simp

end
